theory Spec2Isabelle
  imports Main "HOL-Library.Word"
begin

unbundle bit_operations_syntax

section \<open>Data model\<close>

text \<open>
  The library works on two kinds of raw data: the bytes of an uploaded file (an
  \<^verbatim>\<open>ArrayBuffer\<close> viewed through a \<^verbatim>\<open>Uint8Array\<close>) and JavaScript strings, which
  are sequences of 16-bit code units. Both are modelled as lists of machine words.
  Encoding names and other constants of the source stay ordinary HOL strings.
\<close>

type_synonym byte = "8 word"
type_synonym jschar = "16 word"
type_synonym jsstring = "jschar list"

text \<open>\<open>js\<close> writes a JavaScript string literal made of Latin-1 characters.\<close>

definition js :: "string \<Rightarrow> jsstring" where
  "js s = map (\<lambda>c. of_nat (of_char c)) s"

text \<open>
  Reading a typed array outside its bounds yields \<^verbatim>\<open>undefined\<close>, which is equal to no
  number.
\<close>

definition byte_at :: "byte list \<Rightarrow> nat \<Rightarrow> byte option" where
  "byte_at a i = (if i < length a then Some (a ! i) else None)"

section \<open>Encoding sniffer (\<^verbatim>\<open>detectBOM\<close>, \<^verbatim>\<open>detectEncoding\<close>)\<close>

text \<open>
  \<^verbatim>\<open>detectBOM\<close> looks at \<^verbatim>\<open>buffer.slice(0, 4)\<close> and runs five tests in the order
  of the source: UTF-8, UTF-16LE, UTF-16BE, UTF-32LE, UTF-32BE. \<open>None\<close> is the
  \<^verbatim>\<open>null\<close> of the source.
\<close>

definition detectBOM :: "byte list \<Rightarrow> string option" where
  "detectBOM buffer =
     (let uint8Array = take 4 buffer in
      if byte_at uint8Array 0 = Some 0xEF \<and> byte_at uint8Array 1 = Some 0xBB
          \<and> byte_at uint8Array 2 = Some 0xBF
      then Some ''UTF-8''
      else if byte_at uint8Array 0 = Some 0xFF \<and> byte_at uint8Array 1 = Some 0xFE
      then Some ''UTF-16LE''
      else if byte_at uint8Array 0 = Some 0xFE \<and> byte_at uint8Array 1 = Some 0xFF
      then Some ''UTF-16BE''
      else if byte_at uint8Array 0 = Some 0xFF \<and> byte_at uint8Array 1 = Some 0xFE
          \<and> byte_at uint8Array 2 = Some 0x00 \<and> byte_at uint8Array 3 = Some 0x00
      then Some ''UTF-32LE''
      else if byte_at uint8Array 0 = Some 0x00 \<and> byte_at uint8Array 1 = Some 0x00
          \<and> byte_at uint8Array 2 = Some 0xFE \<and> byte_at uint8Array 3 = Some 0xFF
      then Some ''UTF-32BE''
      else None)"

text \<open>
  The scanning loop of \<^verbatim>\<open>detectEncoding\<close>. The state is the index \<open>i\<close> and the flag
  \<^verbatim>\<open>hasHighAscii\<close>; the result is the pair \<^verbatim>\<open>(isUtf8, hasHighAscii)\<close> at loop exit.
  A \<^verbatim>\<open>break\<close> leaves with \<^verbatim>\<open>isUtf8 = false\<close>; after \<^verbatim>\<open>i += k\<close> the loop header
  adds one more.
\<close>

function scan_utf8 :: "byte list \<Rightarrow> nat \<Rightarrow> bool \<Rightarrow> bool \<times> bool" where
  "scan_utf8 a i hasHighAscii =
     (if i < length a then
        (let b = a ! i in
         if b > 127 then
           (if 0xC0 \<le> b \<and> b \<le> 0xDF then
              (if i + 1 \<ge> length a \<or> (a ! (i + 1)) AND 0xC0 \<noteq> 0x80
               then (False, True)
               else scan_utf8 a (i + 1 + 1) True)
            else if 0xE0 \<le> b \<and> b \<le> 0xEF then
              (if i + 2 \<ge> length a \<or> (a ! (i + 1)) AND 0xC0 \<noteq> 0x80
                   \<or> (a ! (i + 2)) AND 0xC0 \<noteq> 0x80
               then (False, True)
               else scan_utf8 a (i + 2 + 1) True)
            else if 0xF0 \<le> b \<and> b \<le> 0xF7 then
              (if i + 3 \<ge> length a \<or> (a ! (i + 1)) AND 0xC0 \<noteq> 0x80
                   \<or> (a ! (i + 2)) AND 0xC0 \<noteq> 0x80
                   \<or> (a ! (i + 3)) AND 0xC0 \<noteq> 0x80
               then (False, True)
               else scan_utf8 a (i + 3 + 1) True)
            else (False, True))
         else scan_utf8 a (i + 1) hasHighAscii)
      else (True, hasHighAscii))"
  by pat_completeness auto
termination
  by (relation "measure (\<lambda>(a, i, h). length a - i)") auto

definition detectEncoding :: "byte list \<Rightarrow> string" where
  "detectEncoding buffer =
     (case detectBOM buffer of
        Some bomEncoding \<Rightarrow> bomEncoding
      | None \<Rightarrow>
          (case scan_utf8 buffer 0 False of
             (isUtf8, hasHighAscii) \<Rightarrow>
               if isUtf8 \<and> hasHighAscii then ''UTF-8'' else ''windows-1252''))"

text \<open>
  The structural condition in the words of the specification: reading the buffer from
  the left, every byte above 127 that is met must be a lead byte (\<open>0xC0\<close>-\<open>0xDF\<close>,
  \<open>0xE0\<close>-\<open>0xEF\<close>, \<open>0xF0\<close>-\<open>0xF7\<close>) followed, inside the buffer, by one, two or three
  continuation bytes \<open>b\<close> with \<open>b AND 0xC0 = 0x80\<close>.
\<close>

definition continuation :: "byte \<Rightarrow> bool" where
  "continuation b \<longleftrightarrow> b AND 0xC0 = 0x80"

definition expected_continuations :: "byte \<Rightarrow> nat option" where
  "expected_continuations b =
     (if 0xC0 \<le> b \<and> b \<le> 0xDF then Some 1
      else if 0xE0 \<le> b \<and> b \<le> 0xEF then Some 2
      else if 0xF0 \<le> b \<and> b \<le> 0xF7 then Some 3
      else None)"

function utf8_structure :: "byte list \<Rightarrow> bool" where
  "utf8_structure [] = True"
| "utf8_structure (b # bs) =
     (if b > 127 then
        (case expected_continuations b of
           None \<Rightarrow> False
         | Some n \<Rightarrow> n \<le> length bs \<and> list_all continuation (take n bs)
                      \<and> utf8_structure (drop n bs))
      else utf8_structure bs)"
  by pat_completeness auto
termination
  by (relation "measure length") auto

definition has_high_byte :: "byte list \<Rightarrow> bool" where
  "has_high_byte bs = list_ex (\<lambda>b. b > 127) bs"

section \<open>JavaScript objects used as dictionaries\<close>

text \<open>
  Rows and the field-to-column mapping are plain JavaScript objects with string keys:
  a finite map from property name to value holds their own properties. Two facts of the
  language matter for objects created by \<^verbatim>\<open>{}\<close>. First, the assignment
  \<^verbatim>\<open>obj['__proto__'] = v\<close> with a string \<open>v\<close> runs the inherited setter, which ignores
  values that are not objects: no own property is created. Second, reading
  \<^verbatim>\<open>obj[k]\<close> for a key the object does not own finds the property on
  \<^verbatim>\<open>Object.prototype\<close> when that has one (\<^verbatim>\<open>constructor\<close>, \<^verbatim>\<open>toString\<close>, ...); all
  of these are functions or objects, hence truthy. Which names the prototype carries is
  taken as the parameter \<open>inherited\<close>.
\<close>

type_synonym object = "jsstring \<rightharpoonup> jsstring"

definition PROTO :: jsstring where
  "PROTO = js ''__proto__''"

definition set_prop :: "jsstring \<Rightarrow> jsstring \<Rightarrow> object \<Rightarrow> object" where
  "set_prop key v obj = (if key = PROTO then obj else obj(key \<mapsto> v))"

definition truthy_prop :: "(jsstring \<Rightarrow> bool) \<Rightarrow> object \<Rightarrow> jsstring \<Rightarrow> bool" where
  "truthy_prop inherited obj key =
     (case obj key of Some v \<Rightarrow> v \<noteq> [] | None \<Rightarrow> inherited key)"

text \<open>\<^verbatim>\<open>Array.prototype.findIndex\<close>; \<open>None\<close> stands for the result \<open>-1\<close>.\<close>

fun findIndex :: "('a \<Rightarrow> bool) \<Rightarrow> 'a list \<Rightarrow> nat option" where
  "findIndex P [] = None"
| "findIndex P (x # xs) = (if P x then Some 0 else map_option Suc (findIndex P xs))"

text \<open>\<^verbatim>\<open>String.prototype.includes\<close>: the argument occurs as a contiguous part.\<close>

fun js_includes :: "jsstring \<Rightarrow> jsstring \<Rightarrow> bool" where
  "js_includes [] sub = (sub = [])"
| "js_includes (c # cs) sub = (take (length sub) (c # cs) = sub \<or> js_includes cs sub)"

text \<open>Numbers inside template strings are printed in decimal.\<close>

fun decimal :: "nat \<Rightarrow> jsstring" where
  "decimal n = (if n < 10 then [of_nat (48 + n)]
                else decimal (n div 10) @ [of_nat (48 + n mod 10)])"

section \<open>CSV parser (\<^verbatim>\<open>parseCSV\<close>)\<close>

record ParseOptions =
  hasHeaders :: bool
  delimiter :: jsstring
  trimFields :: bool
  encoding :: string
  skipEmptyLines :: bool

text \<open>The defaults of the destructuring assignment at the head of \<^verbatim>\<open>parseCSV\<close>.\<close>

definition defaultOptions :: ParseOptions where
  "defaultOptions = \<lparr>hasHeaders = True, delimiter = [], trimFields = True,
     encoding = ''UTF-8'', skipEmptyLines = True\<rparr>"

datatype content = Text jsstring | Buffer "byte list"

text \<open>
  \<open>RangeError\<close> is raised by \<^verbatim>\<open>new TextDecoder(encoding)\<close> for a label it does not know,
  \<open>TypeError\<close> by a property access on \<^verbatim>\<open>undefined\<close>.
\<close>

datatype error = RangeError | TypeError

type_synonym row = object

record ParseResult =
  data :: "row list"
  headers :: "jsstring list"
  errors :: "jsstring list"

text \<open>The variables of the tokenizing loop.\<close>

record tokenizer =
  lines :: "jsstring list list"
  currentLine :: "jsstring list"
  currentField :: jsstring
  inQuotes :: bool

definition QUOTE :: jschar where "QUOTE = 0x22"
definition COMMA :: jschar where "COMMA = 0x2C"
definition LF :: jschar where "LF = 0x0A"
definition CR :: jschar where "CR = 0x0D"
definition BOM :: jschar where "BOM = 0xFEFF"

text \<open>
  \<^verbatim>\<open>String.prototype.trim\<close> removes white space and line terminators, as ECMAScript
  defines them, from both ends.
\<close>

definition white_space :: "jschar \<Rightarrow> bool" where
  "white_space c \<longleftrightarrow>
     c \<in> {0x09, 0x0A, 0x0B, 0x0C, 0x0D, 0x20, 0xA0, 0x1680, 0x2028, 0x2029, 0x202F,
          0x205F, 0x3000, 0xFEFF} \<or> (0x2000 \<le> c \<and> c \<le> 0x200A)"

definition trim :: "jsstring \<Rightarrow> jsstring" where
  "trim s = rev (dropWhile white_space (rev (dropWhile white_space s)))"

text \<open>
  \<open>pushField\<close> is \<^verbatim>\<open>currentLine.push(trimFields ? currentField.trim() : currentField)\<close>
  and \<open>pushLine\<close> the guarded \<^verbatim>\<open>lines.push(currentLine)\<close>; the source writes both out
  at the end of a line and again after the loop.
\<close>

definition pushField :: "ParseOptions \<Rightarrow> tokenizer \<Rightarrow> jsstring list" where
  "pushField opts st =
     currentLine st @ [if trimFields opts then trim (currentField st) else currentField st]"

definition pushLine :: "ParseOptions \<Rightarrow> jsstring list \<Rightarrow> jsstring list list \<Rightarrow> jsstring list list" where
  "pushLine opts line ls =
     (if \<not> skipEmptyLines opts \<or> list_ex (\<lambda>field. length field > 0) line
      then ls @ [line] else ls)"

text \<open>
  The loop \<^verbatim>\<open>for (let i = 0; i < csvText.length; i++)\<close>, as a recursion over the text
  from index \<open>i\<close> on. \<open>nextChar\<close> is a string of one code unit, or the empty string at
  the end of the text; \<^verbatim>\<open>i++\<close> in the body skips one more code unit.
\<close>

fun tokenize_loop :: "ParseOptions \<Rightarrow> jsstring \<Rightarrow> tokenizer \<Rightarrow> tokenizer" where
  "tokenize_loop opts [] st = st"
| "tokenize_loop opts (char # rest) st =
     (let nextChar = take 1 rest in
      if char = QUOTE then
        (if inQuotes st \<and> nextChar = [QUOTE]
         then tokenize_loop opts (drop 1 rest) (st\<lparr>currentField := currentField st @ [QUOTE]\<rparr>)
         else tokenize_loop opts rest (st\<lparr>inQuotes := \<not> inQuotes st\<rparr>))
      else if ([char] = delimiter opts \<or> (delimiter opts = [] \<and> char = COMMA))
              \<and> \<not> inQuotes st then
        tokenize_loop opts rest (st\<lparr>currentLine := pushField opts st, currentField := []\<rparr>)
      else if (char = LF \<or> (char = CR \<and> nextChar = [LF])) \<and> \<not> inQuotes st then
        tokenize_loop opts (if char = CR then drop 1 rest else rest)
          (st\<lparr>lines := pushLine opts (pushField opts st) (lines st),
               currentLine := [], currentField := []\<rparr>)
      else tokenize_loop opts rest (st\<lparr>currentField := currentField st @ [char]\<rparr>))"

definition initial :: tokenizer where
  "initial = \<lparr>lines = [], currentLine = [], currentField = [], inQuotes = False\<rparr>"

text \<open>The last line, which no newline ends.\<close>

definition lastLine :: "ParseOptions \<Rightarrow> tokenizer \<Rightarrow> jsstring list list" where
  "lastLine opts st =
     (if length (currentField st) > 0 \<or> length (currentLine st) > 0
      then pushLine opts (pushField opts st) (lines st)
      else lines st)"

definition tokenize :: "ParseOptions \<Rightarrow> jsstring \<Rightarrow> jsstring list list" where
  "tokenize opts csvText = lastLine opts (tokenize_loop opts csvText initial)"

text \<open>\<^verbatim>\<open>if (csvText.charCodeAt(0) === 0xFEFF) csvText = csvText.slice(1)\<close>\<close>

definition stripBOM :: "jsstring \<Rightarrow> jsstring" where
  "stripBOM csvText = (if take 1 csvText = [BOM] then drop 1 csvText else csvText)"

text \<open>An array read: \<^verbatim>\<open>undefined\<close> outside the bounds.\<close>

definition at_index :: "'a list \<Rightarrow> nat \<Rightarrow> 'a option" where
  "at_index xs i = (if i < length xs then Some (xs ! i) else None)"

definition columnName :: "nat \<Rightarrow> jsstring" where
  "columnName index = js ''Column '' @ decimal (index + 1)"

definition mismatchMessage :: "nat \<Rightarrow> nat \<Rightarrow> nat \<Rightarrow> jsstring" where
  "mismatchMessage lineIndex n m =
     js ''Line '' @ decimal (lineIndex + 1) @ js '' has '' @ decimal n
       @ js '' fields, expected '' @ decimal m"

text \<open>
  \<^verbatim>\<open>headers.forEach((header, index) => ...)\<close> filling the row, with the index counted
  along.
\<close>

fun fillRow :: "jsstring list \<Rightarrow> nat \<Rightarrow> jsstring list \<Rightarrow> row \<Rightarrow> row" where
  "fillRow [] index line r = r"
| "fillRow (header # hs) index line r =
     fillRow hs (index + 1) line
       (set_prop header (if index < length line then line ! index else []) r)"

text \<open>
  The adjustment of a line whose length differs from the number of headers:
  \<^verbatim>\<open>[...line, ...Array(headers.length - line.length).fill('')]\<close> or
  \<^verbatim>\<open>line.slice(0, headers.length)\<close>.
\<close>

definition adjustLine :: "nat \<Rightarrow> jsstring list \<Rightarrow> jsstring list" where
  "adjustLine m line =
     (if length line < m then line @ replicate (m - length line) [] else take m line)"

text \<open>
  The callback of \<^verbatim>\<open>lines.map((line, lineIndex) => ...)\<close>: it returns the row and
  pushes onto \<^verbatim>\<open>errors\<close>.
\<close>

definition convertLine ::
  "jsstring list \<Rightarrow> nat \<Rightarrow> jsstring list \<Rightarrow> jsstring list \<Rightarrow> row \<times> jsstring list" where
  "convertLine hs lineIndex line errs =
     (if length line \<noteq> length hs
      then (fillRow hs 0 (adjustLine (length hs) line) Map.empty,
            errs @ [mismatchMessage lineIndex (length line) (length hs)])
      else (fillRow hs 0 line Map.empty, errs))"

fun convertLines ::
  "jsstring list \<Rightarrow> nat \<Rightarrow> jsstring list list \<Rightarrow> jsstring list \<Rightarrow> row list \<times> jsstring list" where
  "convertLines hs lineIndex [] errs = ([], errs)"
| "convertLines hs lineIndex (line # ls) errs =
     (case convertLine hs lineIndex line errs of
        (r, errs') \<Rightarrow>
          (case convertLines hs (lineIndex + 1) ls errs' of
             (rs, errs'') \<Rightarrow> (r # rs, errs'')))"

text \<open>
  Everything after the decoding. Reading \<^verbatim>\<open>lines[0]\<close> of an empty array would give
  \<^verbatim>\<open>undefined\<close>, and the use of its \<^verbatim>\<open>length\<close> or \<^verbatim>\<open>map\<close> a \<open>TypeError\<close>.
\<close>

definition parseText :: "jsstring \<Rightarrow> ParseOptions \<Rightarrow> error + ParseResult" where
  "parseText csvText opts =
     (let ls = tokenize opts (stripBOM csvText) in
      if length ls = 0
      then Inr \<lparr>data = [], headers = [], errors = [js ''Empty CSV content'']\<rparr>
      else if hasHeaders opts \<and> length ls > 0 then
        (case at_index ls 0 of
           None \<Rightarrow> Inl TypeError
         | Some hs \<Rightarrow>
             (case convertLines hs 0 (drop 1 ls) [] of
                (rows, errs) \<Rightarrow> Inr \<lparr>data = rows, headers = hs, errors = errs\<rparr>))
      else if \<not> hasHeaders opts \<and> length ls > 0 then
        (case at_index ls 0 of
           None \<Rightarrow> Inl TypeError
         | Some first \<Rightarrow>
             (let hs = map columnName [0..<length first] in
              case convertLines hs 0 ls [] of
                (rows, errs) \<Rightarrow> Inr \<lparr>data = rows, headers = hs, errors = errs\<rparr>))
      else
        (case convertLines [] 0 ls [] of
           (rows, errs) \<Rightarrow> Inr \<lparr>data = rows, headers = [], errors = errs\<rparr>))"

text \<open>
  \<^verbatim>\<open>parseCSV\<close>. The platform's \<^verbatim>\<open>TextDecoder\<close> is the parameter \<open>decoder\<close>: for a
  label it knows it gives the decoding function, for any other label the constructor
  throws.
\<close>

definition parseCSV ::
  "(string \<Rightarrow> (byte list \<Rightarrow> jsstring) option) \<Rightarrow> content \<Rightarrow> ParseOptions
     \<Rightarrow> error + ParseResult" where
  "parseCSV decoder content opts =
     (case content of
        Buffer buffer \<Rightarrow>
          (case decoder (encoding opts) of
             None \<Rightarrow> Inl RangeError
           | Some decode \<Rightarrow> parseText (decode buffer) opts)
      | Text csvText \<Rightarrow> parseText csvText opts)"

text \<open>
  Abbreviations for the statements below: the row the converter builds from a line, the
  error strings it pushes for the lines that start at index \<open>k\<close>, and the header line
  and data lines among the tokenized lines.
\<close>

definition rowOf :: "jsstring list \<Rightarrow> jsstring list \<Rightarrow> row" where
  "rowOf hs line = fillRow hs 0 (adjustLine (length hs) line) Map.empty"

definition mismatches :: "nat \<Rightarrow> nat \<Rightarrow> jsstring list list \<Rightarrow> jsstring list" where
  "mismatches m k ls =
     map (\<lambda>(i, line). mismatchMessage i (length line) m)
       (filter (\<lambda>(i, line). length line \<noteq> m) (enumerate k ls))"

definition headerLine :: "ParseOptions \<Rightarrow> jsstring list list \<Rightarrow> jsstring list" where
  "headerLine opts ls =
     (if hasHeaders opts then hd ls else map columnName [0..<length (hd ls)])"

definition dataLines :: "ParseOptions \<Rightarrow> jsstring list list \<Rightarrow> jsstring list list" where
  "dataLines opts ls = (if hasHeaders opts then drop 1 ls else ls)"

section \<open>Delimiter detector (\<^verbatim>\<open>detectDelimiter\<close>)\<close>

definition SEMICOLON :: jschar where "SEMICOLON = 0x3B"
definition TAB :: jschar where "TAB = 0x09"
definition PIPE :: jschar where "PIPE = 0x7C"

text \<open>
  \<^verbatim>\<open>csvContent.split(/\r?\n/)\<close>: the text is cut at every line feed, and a carriage
  return directly before the line feed belongs to the cut. \<open>piece\<close> collects the
  current part.
\<close>

fun splitLines :: "jsstring \<Rightarrow> jsstring \<Rightarrow> jsstring list" where
  "splitLines piece [] = [piece]"
| "splitLines piece [c] = (if c = LF then [piece, []] else [piece @ [c]])"
| "splitLines piece (c # d # rest) =
     (if c = LF then piece # splitLines [] (d # rest)
      else if c = CR \<and> d = LF then piece # splitLines [] rest
      else splitLines (piece @ [c]) (d # rest))"

text \<open>\<^verbatim>\<open>Array.prototype.join\<close>\<close>

fun join :: "jsstring \<Rightarrow> jsstring list \<Rightarrow> jsstring" where
  "join sep [] = []"
| "join sep [x] = x"
| "join sep (x # y # ys) = x @ sep @ join sep (y # ys)"

text \<open>\<^verbatim>\<open>(s.match(/c/g) || []).length\<close> for a single character \<open>c\<close>\<close>

definition matchCount :: "jschar \<Rightarrow> jsstring \<Rightarrow> nat" where
  "matchCount c s = length (filter (\<lambda>x. x = c) s)"

definition sampleLines :: "jsstring \<Rightarrow> jsstring" where
  "sampleLines csvContent = join [LF] (take 5 (splitLines [] csvContent))"

text \<open>
  The object \<^verbatim>\<open>counts\<close>; \<^verbatim>\<open>Object.entries\<close> lists its keys in the order in which the
  literal names them.
\<close>

definition counts :: "jsstring \<Rightarrow> (jsstring \<times> nat) list" where
  "counts sample =
     [([COMMA], matchCount COMMA sample),
      ([SEMICOLON], matchCount SEMICOLON sample),
      ([TAB], matchCount TAB sample),
      ([PIPE], matchCount PIPE sample)]"

text \<open>The callback of \<^verbatim>\<open>forEach\<close>, on the pair \<^verbatim>\<open>(maxCount, detectedDelimiter)\<close>.\<close>

definition mostCommon :: "jsstring \<times> nat \<Rightarrow> nat \<times> jsstring \<Rightarrow> nat \<times> jsstring" where
  "mostCommon entry acc =
     (case entry of (candidate, count) \<Rightarrow>
        (case acc of (maxCount, detectedDelimiter) \<Rightarrow>
           if count > maxCount then (count, candidate) else (maxCount, detectedDelimiter)))"

definition detectDelimiter :: "jsstring \<Rightarrow> jsstring" where
  "detectDelimiter csvContent =
     snd (fold mostCommon (counts (sampleLines csvContent)) (0, [COMMA]))"

text \<open>
  For the proofs: the text before the \<open>n\<close>-th line feed, or the whole text when it has
  fewer than \<open>n\<close> line feeds.
\<close>

fun beforeLF :: "nat \<Rightarrow> jsstring \<Rightarrow> jsstring" where
  "beforeLF n [] = []"
| "beforeLF n (c # t) =
     (if c = LF then (if n \<le> 1 then [] else c # beforeLF (n - 1) t)
      else c # beforeLF n t)"

section \<open>Column auto-matcher (\<^verbatim>\<open>autoMatchFields\<close>, \<^verbatim>\<open>autoMapColumns\<close>)\<close>

text \<open>
  A field definition as the components read it; \<open>label\<close> is \<open>None\<close> when the property is
  absent. The object \<^verbatim>\<open>fields\<close> is the list of its entries in the order of
  \<^verbatim>\<open>Object.keys\<close>; \<^verbatim>\<open>fields[name]\<close> looks the name up.
\<close>

record FieldDefinition =
  required :: bool
  label :: "jsstring option"

type_synonym fields = "(jsstring \<times> FieldDefinition) list"

text \<open>
  \<^verbatim>\<open>fields[fieldName].label || fieldName\<close>: an absent or empty label gives the name.
  The name always comes from \<^verbatim>\<open>Object.keys(fields)\<close>, so the last case is never taken.
\<close>

definition labelOf :: "fields \<Rightarrow> jsstring \<Rightarrow> jsstring" where
  "labelOf fs fieldName =
     (case map_of fs fieldName of
        Some config \<Rightarrow>
          (case label config of
             Some l \<Rightarrow> if l \<noteq> [] then l else fieldName
           | None \<Rightarrow> fieldName)
      | None \<Rightarrow> fieldName)"

text \<open>\<^verbatim>\<open>mapField\<close> of the processor: \<^verbatim>\<open>mapping[field] = column\<close>.\<close>

definition mapField :: "jsstring \<Rightarrow> jsstring \<Rightarrow> object \<Rightarrow> object" where
  "mapField field column mapping = set_prop field column mapping"

text \<open>
  \<^verbatim>\<open>autoMatchFields\<close> of the mapping component. \<open>toLowerCase\<close> is the platform's
  \<^verbatim>\<open>String.prototype.toLowerCase\<close>, \<open>autoMatch\<close> and \<open>autoMatchIgnoreCase\<close> are the
  component's properties, \<open>parsedData\<close> and \<open>parsedHeaders\<close> the state of the processor.
  \<open>matchField\<close> is the callback run for every field name.
\<close>

definition matchField ::
  "(jsstring \<Rightarrow> jsstring) \<Rightarrow> (jsstring \<Rightarrow> bool) \<Rightarrow> bool \<Rightarrow> jsstring list \<Rightarrow> fields
     \<Rightarrow> jsstring \<Rightarrow> object \<Rightarrow> object" where
  "matchField toLowerCase inherited autoMatchIgnoreCase parsedHeaders fs fieldName mapping =
     (if truthy_prop inherited mapping fieldName then mapping
      else
        (let fieldLabel = labelOf fs fieldName;
             matchIndex =
               (if autoMatchIgnoreCase
                then findIndex (\<lambda>header. toLowerCase header = toLowerCase fieldLabel
                                  \<or> toLowerCase header = toLowerCase fieldName) parsedHeaders
                else findIndex (\<lambda>header. header = fieldLabel \<or> header = fieldName)
                       parsedHeaders)
         in case matchIndex of
              None \<Rightarrow> mapping
            | Some i \<Rightarrow> mapField fieldName (parsedHeaders ! i) mapping))"

definition autoMatchFields ::
  "(jsstring \<Rightarrow> jsstring) \<Rightarrow> (jsstring \<Rightarrow> bool) \<Rightarrow> bool \<Rightarrow> bool \<Rightarrow> row list
     \<Rightarrow> jsstring list \<Rightarrow> fields \<Rightarrow> object \<Rightarrow> object" where
  "autoMatchFields toLowerCase inherited autoMatch autoMatchIgnoreCase parsedData
       parsedHeaders fs mapping =
     (let hasData = length parsedData > 0 \<and> length parsedHeaders > 0 in
      if \<not> autoMatch \<or> \<not> hasData then mapping
      else fold (matchField toLowerCase inherited autoMatchIgnoreCase parsedHeaders fs)
             (map fst fs) mapping)"

text \<open>
  \<^verbatim>\<open>autoMapColumns\<close> of the processor. It first deletes every key of the mapping and
  then looks, for each field, for a header equal to the label without regard to case and,
  failing that, for a header that contains the label or is contained in it.
\<close>

definition mapColumn ::
  "(jsstring \<Rightarrow> jsstring) \<Rightarrow> jsstring list \<Rightarrow> fields \<Rightarrow> jsstring \<Rightarrow> object \<Rightarrow> object" where
  "mapColumn toLowerCase parsedHeaders fs fieldKey mapping =
     (let fieldLabel = labelOf fs fieldKey;
          exact = findIndex (\<lambda>header. toLowerCase header = toLowerCase fieldLabel)
                    parsedHeaders;
          matchIndex =
            (case exact of
               None \<Rightarrow>
                 findIndex (\<lambda>header. js_includes (toLowerCase header) (toLowerCase fieldLabel)
                              \<or> js_includes (toLowerCase fieldLabel) (toLowerCase header))
                   parsedHeaders
             | Some i \<Rightarrow> Some i)
      in case matchIndex of
           None \<Rightarrow> mapping
         | Some i \<Rightarrow> set_prop fieldKey (parsedHeaders ! i) mapping)"

definition autoMapColumns ::
  "(jsstring \<Rightarrow> jsstring) \<Rightarrow> jsstring list \<Rightarrow> fields \<Rightarrow> object \<Rightarrow> object" where
  "autoMapColumns toLowerCase parsedHeaders fs mapping =
     (if length parsedHeaders = 0 then mapping
      else fold (mapColumn toLowerCase parsedHeaders fs) (map fst fs) Map.empty)"

text \<open>Lower case for the letters A to Z, to run the matchers on examples.\<close>

definition asciiLower :: "jsstring \<Rightarrow> jsstring" where
  "asciiLower s = map (\<lambda>c. if 0x41 \<le> c \<and> c \<le> 0x5A then c + 0x20 else c) s"

section \<open>Properties of the encoding sniffer\<close>

declare scan_utf8.simps [simp del]

lemma take_drop_1: "Suc i < length a \<Longrightarrow> take (Suc 0) (drop (Suc i) a) = [a ! Suc i]"
  by (simp add: take_Suc_conv_app_nth)

lemma take_drop_2: "Suc (Suc i) < length a \<Longrightarrow>
  take 2 (drop (Suc i) a) = [a ! Suc i, a ! Suc (Suc i)]"
  by (simp add: numeral_2_eq_2 take_Suc_conv_app_nth)

lemma take_drop_3: "Suc (Suc (Suc i)) < length a \<Longrightarrow>
  take 3 (drop (Suc i) a) = [a ! Suc i, a ! Suc (Suc i), a ! Suc (Suc (Suc i))]"
  by (simp add: numeral_3_eq_3 take_Suc_conv_app_nth)

lemma scan_utf8_end: "\<not> i < length a \<Longrightarrow> scan_utf8 a i h = (True, h)"
  by (simp add: scan_utf8.simps[of a i h])

lemma scan_utf8_ascii:
  "i < length a \<Longrightarrow> \<not> a ! i > 127 \<Longrightarrow> scan_utf8 a i h = scan_utf8 a (Suc i) h"
  by (simp add: scan_utf8.simps[of a i h])

lemma expected_continuations_None:
  "expected_continuations b = None \<longleftrightarrow>
    \<not> (0xC0 \<le> b \<and> b \<le> 0xDF) \<and> \<not> (0xE0 \<le> b \<and> b \<le> 0xEF) \<and> \<not> (0xF0 \<le> b \<and> b \<le> 0xF7)"
  by (simp add: expected_continuations_def)

lemma scan_utf8_bad:
  assumes "i < length a" "a ! i > 127" "expected_continuations (a ! i) = None"
  shows "scan_utf8 a i h = (False, True)"
proof -
  from assms(3) have c: "(0xC0 \<le> a ! i \<and> a ! i \<le> 0xDF) = False"
    "(0xE0 \<le> a ! i \<and> a ! i \<le> 0xEF) = False" "(0xF0 \<le> a ! i \<and> a ! i \<le> 0xF7) = False"
    by (simp_all add: expected_continuations_None)
  show ?thesis
    by (simp add: scan_utf8.simps[of a i h] Let_def c assms(1,2))
qed

lemma expected_continuations_cases:
  assumes "expected_continuations b = Some n"
  obtains "n = 1" "(0xC0 \<le> b \<and> b \<le> 0xDF) = True"
  | "n = 2" "(0xC0 \<le> b \<and> b \<le> 0xDF) = False" "(0xE0 \<le> b \<and> b \<le> 0xEF) = True"
  | "n = 3" "(0xC0 \<le> b \<and> b \<le> 0xDF) = False" "(0xE0 \<le> b \<and> b \<le> 0xEF) = False"
      "(0xF0 \<le> b \<and> b \<le> 0xF7) = True"
  using assms by (auto simp: expected_continuations_def split: if_splits)

lemma scan_utf8_lead:
  assumes "i < length a" "a ! i > 127" "expected_continuations (a ! i) = Some n"
  shows "scan_utf8 a i h =
    (if i + n \<ge> length a \<or> \<not> list_all continuation (take n (drop (Suc i) a))
     then (False, True) else scan_utf8 a (i + n + 1) True)"
  using assms(3)
proof (cases rule: expected_continuations_cases)
  case 1
  show ?thesis
    by (auto simp add: scan_utf8.simps[of a i h] Let_def take_drop_1 continuation_def 1 assms(1,2))
next
  case 2
  show ?thesis
    by (auto simp add: scan_utf8.simps[of a i h] Let_def take_drop_2 continuation_def 2 assms(1,2))
next
  case 3
  have e: "i + 3 = Suc (Suc (Suc i))" by simp
  show ?thesis
    by (auto simp add: scan_utf8.simps[of a i h] Let_def take_drop_3 continuation_def 3 assms(1,2) e)
qed

lemma continuation_high: "continuation b \<Longrightarrow> b > 127"
proof -
  assume "continuation b"
  then have "b AND 0xC0 = 0x80" by (simp add: continuation_def)
  moreover have "b AND 0xC0 \<le> b" by (rule word_and_le2)
  ultimately have "(0x80 :: byte) \<le> b" by simp
  then show ?thesis by (simp add: word_le_nat_alt word_less_nat_alt)
qed

lemma has_high_byte_Cons [simp]: "has_high_byte (b # bs) \<longleftrightarrow> b > 127 \<or> has_high_byte bs"
  by (simp add: has_high_byte_def)

lemma has_high_byte_Nil [simp]: "\<not> has_high_byte []"
  by (simp add: has_high_byte_def)

lemma scan_utf8_structure:
  "i \<le> length a \<Longrightarrow>
   scan_utf8 a i h =
     (utf8_structure (drop i a), utf8_structure (drop i a) \<longrightarrow> h \<or> has_high_byte (drop i a))"
proof (induction "length a - i" arbitrary: i h rule: less_induct)
  case less
  show ?case
  proof (cases "i < length a")
    case False
    with less.prems show ?thesis by (simp add: scan_utf8_end)
  next
    case True
    then have d: "drop i a = a ! i # drop (Suc i) a" by (simp add: Cons_nth_drop_Suc)
    show ?thesis
    proof (cases "a ! i > 127")
      case False
      from True have "scan_utf8 a (Suc i) h =
          (utf8_structure (drop (Suc i) a),
           utf8_structure (drop (Suc i) a) \<longrightarrow> h \<or> has_high_byte (drop (Suc i) a))"
        by (intro less.hyps) simp_all
      with True False show ?thesis
        by (simp add: scan_utf8_ascii d)
    next
      case hi: True
      show ?thesis
      proof (cases "expected_continuations (a ! i)")
        case None
        with True hi show ?thesis
          by (simp add: scan_utf8_bad d)
      next
        case (Some n)
        show ?thesis
        proof (cases "i + n \<ge> length a \<or> \<not> list_all continuation (take n (drop (Suc i) a))")
          case bad: True
          with True hi Some show ?thesis
            by (auto simp add: scan_utf8_lead d)
        next
          case good: False
          then have le: "i + n + 1 \<le> length a" by simp
          from Some have n: "n = 1 \<or> n = 2 \<or> n = 3"
            by (auto simp: expected_continuations_def split: if_splits)
          have ih: "scan_utf8 a (i + n + 1) True =
            (utf8_structure (drop (i + n + 1) a),
             utf8_structure (drop (i + n + 1) a) \<longrightarrow> True \<or> has_high_byte (drop (i + n + 1) a))"
            using le by (intro less.hyps) simp_all
          have dd: "drop n (drop (Suc i) a) = drop (i + n + 1) a"
            by (simp add: add.commute)
          from good have nl: "n \<le> length a - Suc i" by linarith
          from good True hi Some ih nl show ?thesis
            by (simp add: scan_utf8_lead d add.commute)
        qed
      qed
    qed
  qed
qed

lemma detectBOM_never_utf32le: "detectBOM buffer \<noteq> Some ''UTF-32LE''"
  by (simp add: detectBOM_def Let_def)

text \<open>
  Claim C1. The specification wants a buffer that starts with \<open>FF FE 00 00\<close> to be
  reported as UTF-32LE. In the source the two-byte test for \<open>FF FE\<close> stands before the
  four-byte test, so the buffer \<open>FF FE 00 00\<close> is reported as UTF-16LE and the UTF-32LE
  branch can never be taken.
\<close>

theorem detectEncoding_ff_fe_00_00:
  "detectEncoding (0xFF # 0xFE # 0x00 # 0x00 # rest) = ''UTF-16LE''"
  by (simp add: detectEncoding_def detectBOM_def byte_at_def)

text \<open>
  Claim C7. For a buffer without byte-order mark, \<^verbatim>\<open>detectEncoding\<close> answers
  \<^verbatim>\<open>UTF-8\<close> exactly when the buffer holds a byte above 127 and, read from the left,
  every byte above 127 that starts a character is a lead byte followed inside the buffer
  by the expected number of continuation bytes; in every other case it answers
  \<^verbatim>\<open>windows-1252\<close>.
\<close>

theorem detectEncoding_utf8_iff:
  assumes "detectBOM buffer = None"
  shows "detectEncoding buffer =
     (if has_high_byte buffer \<and> utf8_structure buffer then ''UTF-8'' else ''windows-1252'')"
  using assms scan_utf8_structure [of 0 buffer False]
  by (auto simp add: detectEncoding_def)

theorem detectEncoding_utf8_iff_witness:
  "detectBOM [0x41, 0xC3, 0xA9] = None
   \<and> has_high_byte [0x41, 0xC3, 0xA9] \<and> utf8_structure [0x41, 0xC3, 0xA9]
   \<and> detectEncoding [0x41, 0xC3, 0xA9] = ''UTF-8''"
proof -
  have bom: "detectBOM [0x41, 0xC3, 0xA9] = None"
    by (simp add: detectBOM_def byte_at_def)
  have str: "has_high_byte [0x41, 0xC3, 0xA9] \<and> utf8_structure [0x41, 0xC3, 0xA9]"
    by (simp add: expected_continuations_def continuation_def)
  from bom str detectEncoding_utf8_iff [OF bom] show ?thesis by simp
qed

lemma detectEncoding_empty: "detectEncoding [] = ''windows-1252''"
  by (simp add: detectEncoding_def detectBOM_def byte_at_def scan_utf8_end)

lemma detectEncoding_ascii: "detectEncoding [0x61, 0x2C, 0x62] = ''windows-1252''"
  by (simp add: detectEncoding_def detectBOM_def byte_at_def scan_utf8.simps)

lemma detectEncoding_c3_41: "detectEncoding [0xC3, 0x41] = ''windows-1252''"
  by (simp add: detectEncoding_def detectBOM_def byte_at_def scan_utf8.simps)

lemma detectEncoding_truncated: "detectEncoding [0x41, 0xE2, 0x82] = ''windows-1252''"
  by (simp add: detectEncoding_def detectBOM_def byte_at_def scan_utf8.simps)

section \<open>Properties of the tokenizer\<close>

declare tokenize_loop.simps(2) [simp del]

lemmas tokenize_eval = tokenize_loop.simps tokenize_def lastLine_def initial_def
  pushField_def pushLine_def trim_def white_space_def
  QUOTE_def COMMA_def LF_def CR_def js_def Let_def

lemmas parse_eval = tokenize_eval parseCSV_def parseText_def stripBOM_def BOM_def
  at_index_def convertLine_def adjustLine_def mismatchMessage_def columnName_def
  set_prop_def PROTO_def








text \<open>
  Claim C5. In quote mode two quote characters in a row add exactly one quote character
  to the field; both are consumed and the tokenizer stays in quote mode. The field
  \<^verbatim>\<open>"She said ""hi"""\<close> is parsed to \<^verbatim>\<open>She said "hi"\<close>, whatever the options.
\<close>

theorem doubled_quote_escape:
  "(inQuotes st \<longrightarrow>
      tokenize_loop opts (QUOTE # QUOTE # rest) st =
        tokenize_loop opts rest (st\<lparr>currentField := currentField st @ [QUOTE]\<rparr>))
   \<and> tokenize opts ([QUOTE] @ js ''She said '' @ [QUOTE, QUOTE] @ js ''hi''
                      @ [QUOTE, QUOTE, QUOTE])
       = [[js ''She said '' @ [QUOTE] @ js ''hi'' @ [QUOTE]]]"
proof
  show "inQuotes st \<longrightarrow>
      tokenize_loop opts (QUOTE # QUOTE # rest) st =
        tokenize_loop opts rest (st\<lparr>currentField := currentField st @ [QUOTE]\<rparr>)"
    by (simp add: tokenize_loop.simps)
  show "tokenize opts ([QUOTE] @ js ''She said '' @ [QUOTE, QUOTE] @ js ''hi''
                      @ [QUOTE, QUOTE, QUOTE])
       = [[js ''She said '' @ [QUOTE] @ js ''hi'' @ [QUOTE]]]"
    by (simp add: tokenize_eval)
qed

theorem doubled_quote_escape_witness:
  "inQuotes (initial\<lparr>inQuotes := True\<rparr>)
   \<and> tokenize_loop defaultOptions [QUOTE, QUOTE] (initial\<lparr>inQuotes := True\<rparr>)
       = initial\<lparr>inQuotes := True, currentField := [QUOTE]\<rparr>"
  using doubled_quote_escape [of "initial\<lparr>inQuotes := True\<rparr>" defaultOptions "[]"]
  by (simp add: initial_def)

text \<open>
  Claim C10, as the source has it. A carriage return that no line feed follows never
  ends a line. It is added verbatim to the field under construction, except when the
  carriage return is itself the delimiter of the options and the tokenizer is outside
  quotes: then it ends the field. With the default options \<^verbatim>\<open>a\rb\<close> is one line of one
  field.
\<close>

theorem lone_cr_not_line_break:
  assumes "take 1 rest \<noteq> [LF]"
  shows "tokenize_loop opts (CR # rest) st =
           tokenize_loop opts rest
             (if inQuotes st \<or> [CR] \<noteq> delimiter opts
              then st\<lparr>currentField := currentField st @ [CR]\<rparr>
              else st\<lparr>currentLine := pushField opts st, currentField := []\<rparr>)
       \<and> tokenize defaultOptions (js ''a'' @ [CR] @ js ''b'') = [[js ''a'' @ [CR] @ js ''b'']]"
proof
  show "tokenize_loop opts (CR # rest) st =
           tokenize_loop opts rest
             (if inQuotes st \<or> [CR] \<noteq> delimiter opts
              then st\<lparr>currentField := currentField st @ [CR]\<rparr>
              else st\<lparr>currentLine := pushField opts st, currentField := []\<rparr>)"
    using assms by (auto simp add: tokenize_loop.simps CR_def QUOTE_def COMMA_def LF_def)
  show "tokenize defaultOptions (js ''a'' @ [CR] @ js ''b'') = [[js ''a'' @ [CR] @ js ''b'']]"
    by (simp add: tokenize_eval defaultOptions_def)
qed

theorem lone_cr_not_line_break_witness:
  "take 1 (js ''b'') \<noteq> [LF]
   \<and> tokenize_loop defaultOptions (CR # js ''b'') (initial\<lparr>currentField := js ''a''\<rparr>)
       = initial\<lparr>currentField := js ''a'' @ [CR] @ js ''b''\<rparr>"
proof -
  have h: "take 1 (js ''b'') \<noteq> [LF]"
    by (simp add: js_def LF_def)
  from lone_cr_not_line_break [OF h, of defaultOptions "initial\<lparr>currentField := js ''a''\<rparr>"] h
  show ?thesis
    by (simp add: tokenize_eval defaultOptions_def)
qed

text \<open>
  The claim as worded, the carriage return always going into the field, fails when the
  carriage return is the delimiter: \<^verbatim>\<open>a\rb\<close> is then one line of the two fields \<open>a\<close> and
  \<open>b\<close>, and no field holds the carriage return.
\<close>

theorem cr_as_delimiter_splits:
  "parseCSV Map.empty (Text (js ''a'' @ [CR] @ js ''b''))
     (defaultOptions\<lparr>hasHeaders := False, delimiter := [CR]\<rparr>)
   = Inr \<lparr>data = [[js ''Column 1'' \<mapsto> js ''a'', js ''Column 2'' \<mapsto> js ''b'']],
          headers = [js ''Column 1'', js ''Column 2''], errors = []\<rparr>"
  by (simp add: parse_eval defaultOptions_def)

section \<open>Properties of the parser\<close>

lemma adjustLine_same: "length line = m \<Longrightarrow> adjustLine m line = line"
  by (simp add: adjustLine_def)

lemma length_adjustLine [simp]: "length (adjustLine m line) = m"
  by (simp add: adjustLine_def)

lemma adjustLine_nth:
  "j < m \<Longrightarrow> adjustLine m line ! j = (if j < length line then line ! j else [])"
  by (auto simp add: adjustLine_def nth_append)

lemma fillRow_absent:
  "h \<notin> set hs \<or> h = PROTO \<Longrightarrow> fillRow hs k line r h = r h"
  by (induction hs arbitrary: k r) (auto simp add: set_prop_def)

lemma fillRow_last:
  "j < length hs \<Longrightarrow> hs ! j \<notin> set (drop (Suc j) hs) \<Longrightarrow> hs ! j \<noteq> PROTO \<Longrightarrow>
   fillRow hs k line r (hs ! j) = Some (if k + j < length line then line ! (k + j) else [])"
proof (induction hs arbitrary: k r j)
  case Nil
  then show ?case by simp
next
  case (Cons h hs)
  show ?case
  proof (cases j)
    case 0
    with Cons.prems show ?thesis
      by (simp add: fillRow_absent set_prop_def)
  next
    case (Suc j')
    with Cons.prems Cons.IH [of j' "k + 1"] show ?thesis
      by simp
  qed
qed

lemma dom_fillRow: "dom (fillRow hs k line r) = dom r \<union> (set hs - {PROTO})"
  by (induction hs arbitrary: k r) (auto simp add: set_prop_def)

lemma card_dom_fillRow:
  assumes "\<not> distinct hs"
  shows "card (dom (fillRow hs k line Map.empty)) < length hs"
proof -
  have "card (set hs - {PROTO}) \<le> card (set hs)"
    by (rule card_mono) auto
  moreover have "card (set hs) \<le> length hs" by (rule card_length)
  moreover have "card (set hs) \<noteq> length hs" using assms card_distinct by blast
  ultimately show ?thesis by (simp add: dom_fillRow)
qed

text \<open>
  Every header has a last column, and the row depends on the fields of the last column
  of each name only.
\<close>

lemma last_occurrence:
  "h \<in> set hs \<Longrightarrow> \<exists>j<length hs. hs ! j = h \<and> h \<notin> set (drop (Suc j) hs)"
proof (induction hs)
  case Nil
  then show ?case by simp
next
  case (Cons a hs)
  show ?case
  proof (cases "h \<in> set hs")
    case True
    with Cons.IH obtain j where "j < length hs" "hs ! j = h" "h \<notin> set (drop (Suc j) hs)"
      by blast
    then show ?thesis by (intro exI [of _ "Suc j"]) simp
  next
    case False
    with Cons.prems have "a = h" by simp
    with False show ?thesis by (intro exI [of _ 0]) simp
  qed
qed

lemma later_occurrence:
  assumes "i < j" "j < length hs"
  shows "hs ! j \<in> set (drop (Suc i) hs)"
proof -
  have "Suc i + (j - Suc i) = j" using assms by simp
  moreover have "Suc i + (j - Suc i) < length hs" using assms by simp
  then have "drop (Suc i) hs ! (j - Suc i) = hs ! (Suc i + (j - Suc i))"
    by (simp only: nth_drop less_imp_le_nat)
  moreover have "j - Suc i < length (drop (Suc i) hs)" using assms by simp
  then have "drop (Suc i) hs ! (j - Suc i) \<in> set (drop (Suc i) hs)" by (rule nth_mem)
  ultimately show ?thesis by (simp only:)
qed

lemma fillRow_earlier_column:
  assumes "i < j" "j < length hs" "hs ! i = hs ! j"
  shows "fillRow hs 0 (line[i := v]) Map.empty = fillRow hs 0 line Map.empty"
proof
  fix h
  show "fillRow hs 0 (line[i := v]) Map.empty h = fillRow hs 0 line Map.empty h"
  proof (cases "h \<notin> set hs \<or> h = PROTO")
    case True
    then show ?thesis by (simp only: fillRow_absent)
  next
    case False
    then have hin: "h \<in> set hs" and np: "h \<noteq> PROTO" by blast+
    from last_occurrence [OF hin]
    obtain l where l: "l < length hs" and hl: "hs ! l = h"
      and last: "h \<notin> set (drop (Suc l) hs)"
      by (elim exE conjE)
    have "l \<noteq> i"
    proof
      assume li: "l = i"
      have "hs ! j \<in> set (drop (Suc i) hs)"
        using assms(1,2) by (rule later_occurrence)
      with li have "hs ! j \<in> set (drop (Suc l) hs)" by blast
      moreover have "h = hs ! j"
      proof -
        from hl have "h = hs ! l" by (rule sym)
        also from li have "hs ! l = hs ! i" by (rule arg_cong)
        also note assms(3)
        finally show ?thesis .
      qed
      ultimately have "h \<in> set (drop (Suc l) hs)" by blast
      with last show False by blast
    qed
    then have upd: "line[i := v] ! l = line ! l" by (simp only: nth_list_update_neq not_sym)
    have last': "hs ! l \<notin> set (drop (Suc l) hs)" and np': "hs ! l \<noteq> PROTO"
      using last np hl by blast+
    have "fillRow hs 0 (line[i := v]) Map.empty (hs ! l) =
        Some (if 0 + l < length (line[i := v]) then line[i := v] ! (0 + l) else [])"
      using l last' np' by (rule fillRow_last)
    moreover have "fillRow hs 0 line Map.empty (hs ! l) =
        Some (if 0 + l < length line then line ! (0 + l) else [])"
      using l last' np' by (rule fillRow_last)
    ultimately have "fillRow hs 0 (line[i := v]) Map.empty (hs ! l) =
        fillRow hs 0 line Map.empty (hs ! l)"
      using upd by (simp only: length_list_update add_0)
    then show ?thesis by (simp only: hl)
  qed
qed

lemma convertLine_eq:
  "convertLine hs k line errs =
     (rowOf hs line,
      errs @ (if length line \<noteq> length hs then [mismatchMessage k (length line) (length hs)] else []))"
  by (simp add: convertLine_def rowOf_def adjustLine_same)

lemma convertLines_eq:
  "convertLines hs k ls errs = (map (rowOf hs) ls, errs @ mismatches (length hs) k ls)"
proof (induction ls arbitrary: k errs)
  case Nil
  show ?case by (simp add: mismatches_def)
next
  case (Cons line ls)
  show ?case
    by (simp add: convertLine_eq Cons.IH mismatches_def)
qed

lemma parseText_nonempty:
  assumes "tokenize opts (stripBOM csvText) = first # others"
  shows "parseText csvText opts =
     Inr \<lparr>data = map (rowOf (headerLine opts (first # others))) (dataLines opts (first # others)),
          headers = headerLine opts (first # others),
          errors = mismatches (length (headerLine opts (first # others))) 0 (dataLines opts (first # others))\<rparr>"
  using assms
  by (simp add: parseText_def at_index_def convertLines_eq headerLine_def dataLines_def Let_def)

lemma parseText_empty:
  assumes "tokenize opts (stripBOM csvText) = []"
  shows "parseText csvText opts = Inr \<lparr>data = [], headers = [], errors = [js ''Empty CSV content'']\<rparr>"
  using assms by (simp add: parseText_def)


lemma adjustLine_update:
  "i < length line \<Longrightarrow> adjustLine m (line[i := v]) = (adjustLine m line)[i := v]"
  by (simp add: adjustLine_def list_update_append take_update_swap)

lemma rowOf_lookup:
  assumes "j < length hs" "hs ! j \<notin> set (drop (Suc j) hs)" "hs ! j \<noteq> PROTO"
  shows "rowOf hs line (hs ! j) = Some (if j < length line then line ! j else [])"
proof -
  have "rowOf hs line (hs ! j) =
      Some (if 0 + j < length (adjustLine (length hs) line)
            then adjustLine (length hs) line ! (0 + j) else [])"
    unfolding rowOf_def using assms by (rule fillRow_last)
  with assms(1) show ?thesis by (simp add: adjustLine_nth)
qed

lemma rowOf_earlier_column:
  assumes "i < j" "j < length hs" "hs ! i = hs ! j"
  shows "rowOf hs (line[i := v]) = rowOf hs line"
proof (cases "i < length line")
  case True
  then have "rowOf hs (line[i := v]) =
      fillRow hs 0 ((adjustLine (length hs) line)[i := v]) Map.empty"
    by (simp add: rowOf_def adjustLine_update)
  also have "\<dots> = fillRow hs 0 (adjustLine (length hs) line) Map.empty"
    using assms by (rule fillRow_earlier_column)
  finally show ?thesis by (simp add: rowOf_def)
next
  case False
  then show ?thesis by (simp add: list_update_beyond)
qed




text \<open>
  Rows under repeated headers. Under a header name other than \<^verbatim>\<open>__proto__\<close> the row
  holds the field of the last column that bears the name; when a header is repeated the
  row has fewer entries than there are columns; and the row does not change when the
  field of an earlier column of a repeated name changes.
\<close>

theorem duplicate_header_last_wins:
  assumes "parseCSV decoder (Text csvText) opts = Inr r" and "i < length (data r)"
  shows "(j < length (headers r) \<and> headers r ! j \<notin> set (drop (Suc j) (headers r))
            \<and> headers r ! j \<noteq> PROTO \<longrightarrow>
          (data r ! i) (headers r ! j) =
            Some (adjustLine (length (headers r))
                    (dataLines opts (tokenize opts (stripBOM csvText)) ! i) ! j))
       \<and> (\<not> distinct (headers r) \<longrightarrow> card (dom (data r ! i)) < length (headers r))
       \<and> (k < j \<and> j < length (headers r) \<and> headers r ! k = headers r ! j \<longrightarrow>
            rowOf (headers r) (line[k := v]) = rowOf (headers r) line)"
proof (cases "tokenize opts (stripBOM csvText)")
  case Nil
  with assms show ?thesis by (auto simp add: parseCSV_def parseText_empty)
next
  case (Cons first others)
  let ?hs = "headerLine opts (first # others)"
  let ?dl = "dataLines opts (first # others)"
  from assms(1) Cons have hs: "headers r = ?hs" and d: "data r = map (rowOf ?hs) ?dl"
    by (auto simp add: parseCSV_def parseText_nonempty)
  from assms(2) d have i: "i < length ?dl" by simp
  with d have row: "data r ! i = rowOf ?hs (?dl ! i)" by simp
  have a: "j < length ?hs \<and> ?hs ! j \<notin> set (drop (Suc j) ?hs) \<and> ?hs ! j \<noteq> PROTO \<longrightarrow>
      rowOf ?hs (?dl ! i) (?hs ! j) = Some (adjustLine (length ?hs) (?dl ! i) ! j)"
    by (simp add: rowOf_lookup adjustLine_nth)
  have b: "\<not> distinct ?hs \<longrightarrow> card (dom (rowOf ?hs (?dl ! i))) < length ?hs"
    by (simp add: rowOf_def card_dom_fillRow)
  have c: "k < j \<and> j < length ?hs \<and> ?hs ! k = ?hs ! j \<longrightarrow>
      rowOf ?hs (line[k := v]) = rowOf ?hs line"
    using rowOf_earlier_column [of k j ?hs line v] by blast
  from a b c show ?thesis unfolding hs row Cons by blast
qed

theorem duplicate_header_last_wins_witness:
  "parseCSV Map.empty (Text (js ''x,x'' @ [LF] @ js ''1,2'')) defaultOptions
     = Inr \<lparr>data = [[js ''x'' \<mapsto> js ''2'']], headers = [js ''x'', js ''x''], errors = []\<rparr>
   \<and> [js ''x'' \<mapsto> js ''2''] (js ''x'') = Some (js ''2'')
   \<and> card (dom [js ''x'' \<mapsto> js ''2'']) < (2::nat)"
proof -
  let ?r = "\<lparr>data = [[js ''x'' \<mapsto> js ''2'']], headers = [js ''x'', js ''x''], errors = []\<rparr>"
  have p: "parseCSV Map.empty (Text (js ''x,x'' @ [LF] @ js ''1,2'')) defaultOptions = Inr ?r"
    by (simp add: parse_eval defaultOptions_def)
  have i: "0 < length (data ?r)" by simp
  from duplicate_header_last_wins [OF p i, of 1] p show ?thesis
    by (simp add: js_def PROTO_def)
qed

text \<open>
  Claim C9. With a repeated header the row should hold one entry under the repeated
  name, with the field of the last column of that name. The loop over the headers
  assigns \<^verbatim>\<open>row[header]\<close> for every header, but on the plain object the assignment
  \<^verbatim>\<open>row['__proto__'] = '2'\<close> creates no property: with the header \<^verbatim>\<open>__proto__\<close>
  twice the row is empty, and the fields of both columns are lost.
\<close>

theorem proto_header_no_entry:
  "parseCSV Map.empty (Text (js ''__proto__,__proto__'' @ [LF] @ js ''1,2'')) defaultOptions
     = Inr \<lparr>data = [Map.empty], headers = [js ''__proto__'', js ''__proto__''], errors = []\<rparr>"
  by (simp add: parse_eval defaultOptions_def)

text \<open>Malformed and special inputs.\<close>

lemma unbalanced_quote_example:
  "parseCSV decoder (Text (js ''a,b'' @ [LF, QUOTE] @ js ''x,y'')) defaultOptions
     = Inr \<lparr>data = [[js ''a'' \<mapsto> js ''x,y'', js ''b'' \<mapsto> []]],
            headers = [js ''a'', js ''b''],
            errors = [js ''Line 1 has 1 fields, expected 2'']\<rparr>"
  by (simp add: parse_eval defaultOptions_def)

lemma empty_example:
  "parseCSV decoder (Text []) opts
     = Inr \<lparr>data = [], headers = [], errors = [js ''Empty CSV content'']\<rparr>"
  by (simp add: parse_eval)

lemma no_headers_example:
  "parseCSV decoder (Text (js ''1,2,3'' @ [LF] @ js ''4,5,6'')) (defaultOptions\<lparr>hasHeaders := False\<rparr>)
     = Inr \<lparr>data = [[js ''Column 1'' \<mapsto> js ''1'', js ''Column 2'' \<mapsto> js ''2'', js ''Column 3'' \<mapsto> js ''3''],
                   [js ''Column 1'' \<mapsto> js ''4'', js ''Column 2'' \<mapsto> js ''5'', js ''Column 3'' \<mapsto> js ''6'']],
            headers = [js ''Column 1'', js ''Column 2'', js ''Column 3''],
            errors = []\<rparr>"
  by (simp add: parse_eval defaultOptions_def)

lemma unknown_encoding_raises:
  "parseCSV Map.empty (Buffer bytes) opts = Inl RangeError"
  by (simp add: parseCSV_def)

section \<open>Properties of the delimiter detector\<close>

lemma matchCount_count_list: "matchCount c s = count_list s c"
  by (induction s) (simp_all add: matchCount_def)

lemma matchCount_append [simp]: "matchCount c (xs @ ys) = matchCount c xs + matchCount c ys"
  by (simp add: matchCount_def)

lemma matchCount_Nil [simp]: "matchCount c [] = 0"
  by (simp add: matchCount_def)

lemma matchCount_Cons: "matchCount c (x # xs) = (if x = c then 1 else 0) + matchCount c xs"
  by (simp add: matchCount_def)

lemma matchCount_join:
  "c \<noteq> LF \<Longrightarrow> matchCount c (join [LF] xs) = sum_list (map (matchCount c) xs)"
proof (induction "[LF]" xs rule: join.induct)
  case 1
  show ?case by simp
next
  case (2 x)
  show ?case by simp
next
  case (3 x y ys)
  then show ?case by (simp add: matchCount_Cons)
qed

text \<open>
  The counts taken on the first five pieces of the split text, joined by line feeds, are
  the counts in the text before the fifth line feed: a carriage return before a line
  feed is dropped by the split, and no candidate is a carriage return or a line feed.
\<close>

lemma take_Cons_pos: "0 < n \<Longrightarrow> take n (x # xs) = x # take (n - 1) xs"
  by (cases n) simp_all

lemma splitLines_counts:
  "0 < n \<Longrightarrow> c \<noteq> LF \<Longrightarrow> c \<noteq> CR \<Longrightarrow>
   sum_list (map (matchCount c) (take n (splitLines piece t)))
     = matchCount c piece + matchCount c (beforeLF n t)"
proof (induction piece t arbitrary: n rule: splitLines.induct)
  case (1 piece)
  then show ?case by (simp add: take_Cons_pos)
next
  case (2 piece x)
  then show ?case by (auto simp add: take_Cons_pos matchCount_Cons)
next
  case (3 piece x d rest)
  show ?case
  proof (cases "x = LF")
    case True
    show ?thesis
    proof (cases "n \<le> 1")
      case True
      with \<open>x = LF\<close> "3.prems" show ?thesis by (simp add: take_Cons_pos)
    next
      case False
      then have "0 < n - 1" by simp
      from "3.IH"(1) [OF \<open>x = LF\<close> this "3.prems"(2,3)] \<open>x = LF\<close> False "3.prems"
      show ?thesis by (simp add: take_Cons_pos matchCount_Cons)
    qed
  next
    case nlf: False
    show ?thesis
    proof (cases "x = CR \<and> d = LF")
      case True
      show ?thesis
      proof (cases "n \<le> 1")
        case le: True
        with True nlf "3.prems" show ?thesis by (simp add: take_Cons_pos matchCount_Cons)
      next
        case False
        then have "0 < n - 1" by simp
        from "3.IH"(2) [OF nlf True this "3.prems"(2,3)] True nlf False "3.prems"
        show ?thesis by (simp add: take_Cons_pos matchCount_Cons)
      qed
    next
      case False
      from "3.IH"(3) [OF nlf False "3.prems"] nlf False "3.prems"
      show ?thesis by (auto simp add: matchCount_Cons)
    qed
  qed
qed

lemma beforeLF_sample:
  "rest = [] \<and> count_list sample LF < n \<or> take 1 rest = [LF] \<and> Suc (count_list sample LF) = n
   \<Longrightarrow> beforeLF n (sample @ rest) = sample"
proof (induction sample arbitrary: n)
  case Nil
  then show ?case by (cases rest) auto
next
  case (Cons x sample)
  show ?case
  proof (cases "x = LF")
    case True
    with Cons.prems have "rest = [] \<and> count_list sample LF < n - 1
        \<or> take 1 rest = [LF] \<and> Suc (count_list sample LF) = n - 1" and "\<not> n \<le> 1"
      by auto
    with Cons.IH [of "n - 1"] True show ?thesis by simp
  next
    case False
    with Cons.prems Cons.IH [of n] show ?thesis by simp
  qed
qed

text \<open>Every text has its part before the fifth line feed.\<close>

lemma first_lines_exist:
  "0 < n \<Longrightarrow>
   \<exists>rest. t = beforeLF n t @ rest
     \<and> (rest = [] \<and> count_list (beforeLF n t) LF < n
          \<or> take 1 rest = [LF] \<and> Suc (count_list (beforeLF n t) LF) = n)"
proof (induction t arbitrary: n)
  case Nil
  then show ?case by simp
next
  case (Cons x t)
  show ?case
  proof (cases "x = LF")
    case True
    show ?thesis
    proof (cases "n \<le> 1")
      case True
      with \<open>x = LF\<close> Cons.prems show ?thesis by auto
    next
      case False
      then have "0 < n - 1" by simp
      from Cons.IH [OF this] obtain rest where "t = beforeLF (n - 1) t @ rest"
        "rest = [] \<and> count_list (beforeLF (n - 1) t) LF < n - 1
          \<or> take 1 rest = [LF] \<and> Suc (count_list (beforeLF (n - 1) t) LF) = n - 1"
        by (elim exE conjE)
      with \<open>x = LF\<close> False show ?thesis
        by (intro exI [of _ rest]) auto
    qed
  next
    case False
    from Cons.IH [OF Cons.prems] obtain rest where "t = beforeLF n t @ rest"
        "rest = [] \<and> count_list (beforeLF n t) LF < n
          \<or> take 1 rest = [LF] \<and> Suc (count_list (beforeLF n t) LF) = n"
      by (elim exE conjE)
    with False show ?thesis
      by (intro exI [of _ rest]) auto
  qed
qed

lemma sample_counts:
  assumes "csvContent = sample @ rest"
    and "rest = [] \<and> count_list sample LF < 5 \<or> take 1 rest = [LF] \<and> count_list sample LF = 4"
    and "c \<noteq> LF" "c \<noteq> CR"
  shows "matchCount c (sampleLines csvContent) = count_list sample c"
proof -
  from assms(2) have "rest = [] \<and> count_list sample LF < 5
      \<or> take 1 rest = [LF] \<and> Suc (count_list sample LF) = 5"
    by auto
  then have "beforeLF 5 (sample @ rest) = sample" by (rule beforeLF_sample)
  moreover have "matchCount c (sampleLines csvContent) =
      matchCount c [] + matchCount c (beforeLF 5 csvContent)"
    unfolding sampleLines_def matchCount_join [OF assms(3)]
    by (rule splitLines_counts) (simp_all add: assms)
  ultimately show ?thesis using assms(1) by (simp add: matchCount_count_list)
qed

lemma fold_mostCommon:
  "snd (fold mostCommon [([COMMA], a), ([SEMICOLON], b), ([TAB], c), ([PIPE], d)] (0, [COMMA])) =
     (if b \<le> a \<and> c \<le> a \<and> d \<le> a then [COMMA]
      else if c \<le> b \<and> d \<le> b then [SEMICOLON]
      else if d \<le> c then [TAB]
      else [PIPE])"
  by (auto simp add: mostCommon_def)

lemma detectDelimiter_eq:
  assumes "csvContent = sample @ rest"
    and "rest = [] \<and> count_list sample LF < 5 \<or> take 1 rest = [LF] \<and> count_list sample LF = 4"
  shows "detectDelimiter csvContent =
     (if count_list sample SEMICOLON \<le> count_list sample COMMA
          \<and> count_list sample TAB \<le> count_list sample COMMA
          \<and> count_list sample PIPE \<le> count_list sample COMMA then [COMMA]
      else if count_list sample TAB \<le> count_list sample SEMICOLON
          \<and> count_list sample PIPE \<le> count_list sample SEMICOLON then [SEMICOLON]
      else if count_list sample PIPE \<le> count_list sample TAB then [TAB]
      else [PIPE])"
proof -
  have c: "matchCount COMMA (sampleLines csvContent) = count_list sample COMMA"
    using assms by (rule sample_counts) (simp_all add: COMMA_def LF_def CR_def)
  have s: "matchCount SEMICOLON (sampleLines csvContent) = count_list sample SEMICOLON"
    using assms by (rule sample_counts) (simp_all add: SEMICOLON_def LF_def CR_def)
  have t: "matchCount TAB (sampleLines csvContent) = count_list sample TAB"
    using assms by (rule sample_counts) (simp_all add: TAB_def LF_def CR_def)
  have p: "matchCount PIPE (sampleLines csvContent) = count_list sample PIPE"
    using assms by (rule sample_counts) (simp_all add: PIPE_def LF_def CR_def)
  show ?thesis
    unfolding detectDelimiter_def counts_def fold_mostCommon
    by (simp only: c s t p)
qed

text \<open>
  Claim C8. Let \<open>sample\<close> be the first five lines of the text: the whole text when it
  has fewer than five line feeds, and otherwise its part before the fifth line feed.
  \<^verbatim>\<open>detectDelimiter\<close> returns one of comma, semicolon, tab and pipe. No candidate
  occurs more often in \<open>sample\<close> than the one returned, and every candidate that stands
  before it in this order occurs strictly less often; so the earlier candidate wins a
  tie, and the comma is returned when no candidate occurs. The occurrences are those of
  the raw text, quoted or not, and the text after the fifth line feed has no influence.
\<close>

theorem detectDelimiter_most_common:
  assumes "csvContent = sample @ rest"
    and "rest = [] \<and> count_list sample LF < 5 \<or> take 1 rest = [LF] \<and> count_list sample LF = 4"
  shows "\<exists>k<4.
      detectDelimiter csvContent = [[COMMA, SEMICOLON, TAB, PIPE] ! k]
      \<and> (\<forall>j<4. count_list sample ([COMMA, SEMICOLON, TAB, PIPE] ! j)
                   \<le> count_list sample ([COMMA, SEMICOLON, TAB, PIPE] ! k))
      \<and> (\<forall>j<k. count_list sample ([COMMA, SEMICOLON, TAB, PIPE] ! j)
                   < count_list sample ([COMMA, SEMICOLON, TAB, PIPE] ! k))"
proof -
  let ?a = "count_list sample COMMA" and ?b = "count_list sample SEMICOLON"
  and ?c = "count_list sample TAB" and ?d = "count_list sample PIPE"
  let ?P = "\<lambda>k. detectDelimiter csvContent = [[COMMA, SEMICOLON, TAB, PIPE] ! k]
      \<and> (\<forall>j<4. count_list sample ([COMMA, SEMICOLON, TAB, PIPE] ! j)
                   \<le> count_list sample ([COMMA, SEMICOLON, TAB, PIPE] ! k))
      \<and> (\<forall>j<k. count_list sample ([COMMA, SEMICOLON, TAB, PIPE] ! j)
                   < count_list sample ([COMMA, SEMICOLON, TAB, PIPE] ! k))"
  have four: "(4::nat) = Suc (Suc (Suc (Suc 0)))" by simp
  note eq = detectDelimiter_eq [OF assms]
  consider "?b \<le> ?a" "?c \<le> ?a" "?d \<le> ?a"
    | "?a < ?b" "?c \<le> ?b" "?d \<le> ?b"
    | "?a < ?c" "?b < ?c" "?d \<le> ?c"
    | "?a < ?d" "?b < ?d" "?c < ?d"
    by linarith
  then show ?thesis
  proof cases
    case 1
    then have "?P 0"
      by (auto simp add: eq four less_Suc_eq)
    then show ?thesis by (intro exI [of _ 0]) simp
  next
    case 2
    then have "?P 1"
      by (auto simp add: eq four less_Suc_eq)
    then show ?thesis by (intro exI [of _ 1]) simp
  next
    case 3
    then have "?P 2"
      by (auto simp add: eq four less_Suc_eq numeral_2_eq_2)
    then show ?thesis by (intro exI [of _ 2]) simp
  next
    case 4
    then have "?P 3"
      by (auto simp add: eq four less_Suc_eq numeral_3_eq_3)
    then show ?thesis by (intro exI [of _ 3]) simp
  qed
qed

lemmas delimiter_eval = detectDelimiter_def counts_def sampleLines_def matchCount_def
  mostCommon_def js_def COMMA_def SEMICOLON_def TAB_def PIPE_def LF_def CR_def

text \<open>
  The semicolon occurs twice in the first five lines and the comma once; the pipes of the
  sixth line are not counted.
\<close>

theorem detectDelimiter_most_common_witness:
  "js ''a;b'' @ [LF] @ js ''c'' @ [CR, LF] @ js ''d'' @ [LF] @ js ''e'' @ [LF] @ js ''f,g;h''
       @ [LF] @ js ''i|j|k|l''
     = (js ''a;b'' @ [LF] @ js ''c'' @ [CR, LF] @ js ''d'' @ [LF] @ js ''e'' @ [LF] @ js ''f,g;h'')
         @ ([LF] @ js ''i|j|k|l'')
   \<and> take 1 ([LF] @ js ''i|j|k|l'') = [LF]
   \<and> count_list
         (js ''a;b'' @ [LF] @ js ''c'' @ [CR, LF] @ js ''d'' @ [LF] @ js ''e'' @ [LF] @ js ''f,g;h'')
         LF = 4
   \<and> detectDelimiter
         (js ''a;b'' @ [LF] @ js ''c'' @ [CR, LF] @ js ''d'' @ [LF] @ js ''e'' @ [LF]
            @ js ''f,g;h'' @ [LF] @ js ''i|j|k|l'')
       = [SEMICOLON]"
proof -
  let ?sample = "js ''a;b'' @ [LF] @ js ''c'' @ [CR, LF] @ js ''d'' @ [LF] @ js ''e'' @ [LF]
      @ js ''f,g;h''"
  let ?rest = "[LF] @ js ''i|j|k|l''"
  have split: "js ''a;b'' @ [LF] @ js ''c'' @ [CR, LF] @ js ''d'' @ [LF] @ js ''e'' @ [LF]
      @ js ''f,g;h'' @ [LF] @ js ''i|j|k|l'' = ?sample @ ?rest"
    by simp
  have five: "?rest = [] \<and> count_list ?sample LF < 5
      \<or> take 1 ?rest = [LF] \<and> count_list ?sample LF = 4"
    by (simp add: js_def LF_def CR_def)
  from detectDelimiter_most_common [OF split five] split five show ?thesis
    by (simp add: delimiter_eval)
qed

lemma detectDelimiter_tie: "detectDelimiter (js ''a,b;c'') = [COMMA]"
  by (simp add: delimiter_eval)

lemma detectDelimiter_tab: "detectDelimiter (js ''a,b'' @ [TAB] @ js ''c'' @ [TAB] @ js ''d'') = [TAB]"
  by (simp add: delimiter_eval)

lemma detectDelimiter_pipe: "detectDelimiter (js ''a|b|c;d'') = [PIPE]"
  by (simp add: delimiter_eval)

lemma detectDelimiter_none: "detectDelimiter (js ''abc'') = [COMMA]"
  by (simp add: delimiter_eval)

lemma detectDelimiter_sixth_line:
  "detectDelimiter (js ''a,b'' @ [LF] @ js ''c'' @ [CR, LF] @ js ''d'' @ [LF] @ js ''e'' @ [LF]
      @ js ''f'' @ [LF] @ js ''g;h;i;j'') = [COMMA]"
  by (simp add: delimiter_eval)

section \<open>Properties of the column auto-matcher\<close>

lemma set_prop_other: "k \<noteq> key \<Longrightarrow> set_prop key v obj k = obj k"
  by (simp add: set_prop_def)

lemma matchField_shape:
  "\<exists>t. \<forall>m. matchField lc inh ic hs fs k m =
     (if truthy_prop inh m k then m
      else case t of None \<Rightarrow> m | Some h \<Rightarrow> set_prop k h m)"
proof -
  let ?matchIndex = "if ic
     then findIndex (\<lambda>header. lc header = lc (labelOf fs k) \<or> lc header = lc k) hs
     else findIndex (\<lambda>header. header = labelOf fs k \<or> header = k) hs"
  have "\<forall>m. matchField lc inh ic hs fs k m =
     (if truthy_prop inh m k then m
      else case map_option (\<lambda>i. hs ! i) ?matchIndex of None \<Rightarrow> m | Some h \<Rightarrow> set_prop k h m)"
    by (simp add: matchField_def mapField_def Let_def split: option.splits)
  then show ?thesis by blast
qed

lemma truthy_prop_cong: "m' k = m k \<Longrightarrow> truthy_prop inh m' k = truthy_prop inh m k"
  by (simp add: truthy_prop_def)

lemma matchField_other:
  "j \<noteq> k \<Longrightarrow> matchField lc inh ic hs fs k m j = m j"
proof -
  assume jk: "j \<noteq> k"
  obtain t where t: "\<And>m. matchField lc inh ic hs fs k m =
     (if truthy_prop inh m k then m
      else case t of None \<Rightarrow> m | Some h \<Rightarrow> set_prop k h m)"
    using matchField_shape by blast
  show ?thesis using jk by (simp add: t set_prop_other split: option.splits)
qed

lemma matchField_keeps:
  assumes "m j = Some v" "v \<noteq> []"
  shows "matchField lc inh ic hs fs k m j = Some v"
proof (cases "j = k")
  case True
  with assms have "truthy_prop inh m k" by (simp add: truthy_prop_def)
  then show ?thesis using assms True by (simp add: matchField_def)
next
  case False
  then show ?thesis using assms by (simp add: matchField_other)
qed

lemma fold_matchField_keeps:
  assumes "m j = Some v" "v \<noteq> []"
  shows "fold (matchField lc inh ic hs fs) ks m j = Some v"
  using assms
proof (induction ks arbitrary: m)
  case Nil
  then show ?case by simp
next
  case (Cons k ks)
  then show ?case by (simp add: matchField_keeps)
qed

lemma set_prop_twice: "set_prop k h (set_prop k h m) = set_prop k h m"
  by (simp add: set_prop_def)

text \<open>
  A field is settled in a mapping when its callback leaves the mapping as it is. The
  callback settles its field, and the callbacks of other fields keep it settled.
\<close>

lemma matchField_idem:
  "matchField lc inh ic hs fs k (matchField lc inh ic hs fs k m) = matchField lc inh ic hs fs k m"
proof -
  obtain t where t: "\<And>m. matchField lc inh ic hs fs k m =
     (if truthy_prop inh m k then m
      else case t of None \<Rightarrow> m | Some h \<Rightarrow> set_prop k h m)"
    using matchField_shape by blast
  show ?thesis
    by (simp add: t set_prop_twice split: option.splits)
qed

lemma set_prop_settled:
  assumes "set_prop k h m = m" "m' k = m k"
  shows "set_prop k h m' = m'"
proof (cases "k = PROTO")
  case True
  then show ?thesis by (simp add: set_prop_def)
next
  case False
  with assms(1) have "m(k \<mapsto> h) = m" by (simp add: set_prop_def)
  then have "m k = Some h" by (metis fun_upd_same)
  with assms(2) have "m' k = Some h" by simp
  then have "m'(k \<mapsto> h) = m'" by (rule fun_upd_idem)
  with False show ?thesis by (simp add: set_prop_def)
qed

lemma matchField_settled_step:
  assumes "matchField lc inh ic hs fs k m = m"
  shows "matchField lc inh ic hs fs k (matchField lc inh ic hs fs j m) = matchField lc inh ic hs fs j m"
proof (cases "j = k")
  case True
  with assms show ?thesis by simp
next
  case False
  let ?m' = "matchField lc inh ic hs fs j m"
  obtain t where t: "\<And>m. matchField lc inh ic hs fs k m =
     (if truthy_prop inh m k then m
      else case t of None \<Rightarrow> m | Some h \<Rightarrow> set_prop k h m)"
    using matchField_shape by blast
  have same: "?m' k = m k" using False by (simp add: matchField_other)
  then have tr: "truthy_prop inh ?m' k = truthy_prop inh m k" by (rule truthy_prop_cong)
  show ?thesis
  proof (cases "truthy_prop inh m k")
    case True
    with tr show ?thesis by (simp add: t)
  next
    case nt: False
    show ?thesis
    proof (cases t)
      case None
      then show ?thesis by (simp add: t)
    next
      case (Some h)
      with assms nt have "set_prop k h m = m" by (simp add: t)
      then have "set_prop k h ?m' = ?m'" using same by (rule set_prop_settled)
      with Some nt tr show ?thesis by (simp add: t)
    qed
  qed
qed

lemma fold_settled_preserved:
  assumes "matchField lc inh ic hs fs k m = m"
  shows "matchField lc inh ic hs fs k (fold (matchField lc inh ic hs fs) ks m)
           = fold (matchField lc inh ic hs fs) ks m"
  using assms
proof (induction ks arbitrary: m)
  case Nil
  then show ?case by simp
next
  case (Cons j ks)
  then show ?case by (simp add: matchField_settled_step)
qed

lemma fold_settles:
  "k \<in> set ks \<Longrightarrow>
   matchField lc inh ic hs fs k (fold (matchField lc inh ic hs fs) ks m)
     = fold (matchField lc inh ic hs fs) ks m"
proof (induction ks arbitrary: m)
  case Nil
  then show ?case by simp
next
  case (Cons j ks)
  show ?case
  proof (cases "k = j")
    case True
    then show ?thesis
      by (simp add: fold_settled_preserved matchField_idem)
  next
    case False
    with Cons show ?thesis by simp
  qed
qed

lemma fold_all_settled:
  "(\<And>k. k \<in> set ks \<Longrightarrow> matchField lc inh ic hs fs k m = m) \<Longrightarrow>
   fold (matchField lc inh ic hs fs) ks m = m"
  by (induction ks) simp_all

lemma fold_matchField_idem:
  "fold (matchField lc inh ic hs fs) ks (fold (matchField lc inh ic hs fs) ks m)
     = fold (matchField lc inh ic hs fs) ks m"
  by (rule fold_all_settled) (rule fold_settles)

lemma autoMatchFields_idem:
  "autoMatchFields lc inh am ic pd hs fs (autoMatchFields lc inh am ic pd hs fs m)
     = autoMatchFields lc inh am ic pd hs fs m"
  by (simp add: autoMatchFields_def fold_matchField_idem)

lemma autoMatchFields_keeps:
  "m j = Some v \<Longrightarrow> v \<noteq> [] \<Longrightarrow> autoMatchFields lc inh am ic pd hs fs m j = Some v"
  by (simp add: autoMatchFields_def fold_matchField_keeps)

lemma autoMapColumns_idem:
  "autoMapColumns lc hs fs (autoMapColumns lc hs fs m) = autoMapColumns lc hs fs m"
  by (simp add: autoMapColumns_def)

lemmas match_eval = autoMatchFields_def matchField_def mapField_def autoMapColumns_def
  mapColumn_def labelOf_def truthy_prop_def set_prop_def PROTO_def asciiLower_def js_def Let_def

text \<open>
  Claim C2, as the source has it. \<^verbatim>\<open>autoMatchFields\<close> of the mapping component never
  changes an entry of the mapping that is a non-empty string, and running it a second
  time changes nothing. \<^verbatim>\<open>autoMapColumns\<close> of the processor deletes the mapping and
  builds it anew from the headers and the fields: running it twice gives the same mapping
  as running it once, but entries that existed before are not kept.
\<close>

theorem autoMatch_preserves_and_idempotent:
  "(mapping k = Some v \<and> v \<noteq> [] \<longrightarrow>
      autoMatchFields toLowerCase inherited autoMatch ignoreCase parsedData parsedHeaders fs
        mapping k = Some v)
   \<and> autoMatchFields toLowerCase inherited autoMatch ignoreCase parsedData parsedHeaders fs
        (autoMatchFields toLowerCase inherited autoMatch ignoreCase parsedData parsedHeaders fs
           mapping)
       = autoMatchFields toLowerCase inherited autoMatch ignoreCase parsedData parsedHeaders fs
           mapping
   \<and> autoMapColumns toLowerCase parsedHeaders fs (autoMapColumns toLowerCase parsedHeaders fs mapping)
       = autoMapColumns toLowerCase parsedHeaders fs mapping"
  by (simp add: autoMatchFields_keeps autoMatchFields_idem autoMapColumns_idem)

theorem autoMatch_preserves_and_idempotent_witness:
  "[js ''name'' \<mapsto> js ''Full Name''] (js ''name'') = Some (js ''Full Name'')
   \<and> js ''Full Name'' \<noteq> []
   \<and> autoMatchFields asciiLower (\<lambda>key. False) True True [Map.empty] [js ''Name'', js ''Email'']
        [(js ''name'', \<lparr>required = True, label = None\<rparr>),
         (js ''email'', \<lparr>required = False, label = Some (js ''EMAIL'')\<rparr>)]
        [js ''name'' \<mapsto> js ''Full Name'']
       = [js ''name'' \<mapsto> js ''Full Name'', js ''email'' \<mapsto> js ''Email'']"
  using autoMatch_preserves_and_idempotent
    [of "[js ''name'' \<mapsto> js ''Full Name'']" "js ''name''" "js ''Full Name''" asciiLower
        "\<lambda>key. False" True True "[Map.empty]" "[js ''Name'', js ''Email'']"
        "[(js ''name'', \<lparr>required = True, label = None\<rparr>),
          (js ''email'', \<lparr>required = False, label = Some (js ''EMAIL'')\<rparr>)]"]
  by (simp add: match_eval)

text \<open>
  The field \<open>name\<close>, mapped to the column \<open>b\<close>, is mapped to the column \<open>name\<close> after
  \<^verbatim>\<open>autoMapColumns\<close>.
\<close>

theorem autoMapColumns_overwrites:
  "autoMapColumns asciiLower [js ''name'', js ''b'']
     [(js ''name'', \<lparr>required = True, label = None\<rparr>)] [js ''name'' \<mapsto> js ''b'']
   = [js ''name'' \<mapsto> js ''name'']"
  by (simp add: match_eval)

end
